theory Spec2Isabelle
  imports Main "HOL-Library.Sublist"
begin

section \<open>Time\<close>

text \<open>
  Go's \<^verbatim>\<open>time.Time\<close> is modelled as an instant on one time line, counted in
  nanoseconds (an unbounded integer), and \<^verbatim>\<open>time.Duration\<close> as the \<^verbatim>\<open>int64\<close>
  count of nanoseconds it is. \<^verbatim>\<open>Time.Sub\<close> saturates at the least and the
  greatest \<^verbatim>\<open>Duration\<close> instead of wrapping; \<^verbatim>\<open>time.Since(t)\<close> is
  \<^verbatim>\<open>time.Now().Sub(t)\<close>, so the clock reading is an argument.
\<close>

type_synonym Time = int
type_synonym Duration = int

definition maxDuration :: Duration where
  "maxDuration = 2 ^ 63 - 1"

definition minDuration :: Duration where
  "minDuration = - (2 ^ 63)"

definition Second :: Duration where
  "Second = 1000000000"

definition Hour :: Duration where
  "Hour = 3600 * Second"

definition time_Sub :: "Time \<Rightarrow> Time \<Rightarrow> Duration" where
  "time_Sub t u =
     (if t - u > maxDuration then maxDuration
      else if t - u < minDuration then minDuration
      else t - u)"

definition time_Since :: "Time \<Rightarrow> Time \<Rightarrow> Duration" where
  "time_Since now t = time_Sub now t"

definition time_Add :: "Time \<Rightarrow> Duration \<Rightarrow> Time" where
  "time_Add t d = t + d"

definition time_After :: "Time \<Rightarrow> Time \<Rightarrow> bool" where
  "time_After t u = (t > u)"

text \<open>
  The lifetime of an entry: the constant of the redirect variant and the default of the
  \<^verbatim>\<open>-lifetime\<close> flag of the listing variant, whose functions take the configured
  value as the argument \<open>lt\<close>.
\<close>

definition lifetime :: Duration where
  "lifetime = 24 * Hour"

section \<open>The listing variant: a slice of devices\<close>

record Device =
  ExternalAddress :: string
  InternalAddress :: string
  Port :: int
  Name :: string
  Added :: Time

subsection \<open>findDevice, devicesFor\<close>

text \<open>
  \<^verbatim>\<open>findDevice\<close> returns the index of the first device with the given internal and
  external address and \<^verbatim>\<open>true\<close>, or \<^verbatim>\<open>(-1, false)\<close>. The loop is the recursion
  over the slice, with the running index.
\<close>

fun findDevice_from :: "nat \<Rightarrow> string \<Rightarrow> string \<Rightarrow> Device list \<Rightarrow> int \<times> bool" where
  "findDevice_from i ia ea [] = (- 1, False)"
| "findDevice_from i ia ea (d # ds) =
     (if InternalAddress d = ia \<and> ExternalAddress d = ea then (int i, True)
      else findDevice_from (Suc i) ia ea ds)"

definition findDevice :: "string \<Rightarrow> string \<Rightarrow> Device list \<Rightarrow> int \<times> bool" where
  "findDevice ia ea ds = findDevice_from 0 ia ea ds"



subsection \<open>RegisterDevice: the update of the store\<close>

text \<open>
  The part of \<^verbatim>\<open>RegisterDevice\<close> that runs under the write lock, after the request
  has been parsed and the external address \<open>ea\<close> resolved: \<open>ia\<close>, \<open>nm\<close> and \<open>p\<close>
  are the address, name and port of the request body, \<open>now\<close> is the reading of
  \<^verbatim>\<open>time.Now()\<close>. The index that \<^verbatim>\<open>findDevice\<close> returns with \<^verbatim>\<open>true\<close> is within
  the slice, so the three field assignments do not panic.
\<close>

definition RegisterDevice_store ::
  "Time \<Rightarrow> string \<Rightarrow> string \<Rightarrow> string \<Rightarrow> int \<Rightarrow> Device list \<Rightarrow> Device list" where
  "RegisterDevice_store now ea ia nm p ds =
     (case findDevice ia ea ds of
        (i, True) \<Rightarrow> ds[nat i := (ds ! nat i)\<lparr>Name := nm, Port := p, Added := now\<rparr>]
      | (i, False) \<Rightarrow>
          ds @ [\<lparr>ExternalAddress = ea, InternalAddress = ia, Port = p, Name = nm,
                 Added = now\<rparr>])"

subsection \<open>cleanup: the sweep under the write lock\<close>

text \<open>
  The second loop of \<^verbatim>\<open>cleanup\<close> walks the indices from \<^verbatim>\<open>len(devices.d) - 1\<close>
  down to \<^verbatim>\<open>0\<close> and cuts the device at \<open>i\<close> out of the slice when it is older than
  the lifetime, logging one line for it. The first argument of \<open>cleanup_loop\<close> is
  \<open>i + 1\<close>; the state is the slice and the lines logged so far. The function returns
  nothing in Go: what it leaves behind is the slice and the log. Each turn of the loop
  reads the clock in \<^verbatim>\<open>time.Since\<close>: \<open>clock i\<close> is the reading of the turn at the
  index \<open>i\<close>. The loop holds the write lock; a sweep at the instant \<open>now\<close> is the
  loop with all its readings equal to \<open>now\<close>.
\<close>

definition deleting_line :: "Device \<Rightarrow> string" where
  "deleting_line d = ''deleting '' @ InternalAddress d @ '' (timeout)''"

fun cleanup_loop ::
  "nat \<Rightarrow> (nat \<Rightarrow> Time) \<Rightarrow> Duration \<Rightarrow> Device list \<times> string list \<Rightarrow> Device list \<times> string list" where
  "cleanup_loop 0 clock lt (ds, lg) = (ds, lg)"
| "cleanup_loop (Suc i) clock lt (ds, lg) =
     (if time_Since (clock i) (Added (ds ! i)) > lt
      then cleanup_loop i clock lt
             (take i ds @ drop (Suc i) ds, lg @ [deleting_line (ds ! i)])
      else cleanup_loop i clock lt (ds, lg))"

definition cleanup_sweep :: "Time \<Rightarrow> Duration \<Rightarrow> Device list \<Rightarrow> Device list \<times> string list" where
  "cleanup_sweep now lt ds = cleanup_loop (length ds) (\<lambda>i. now) lt (ds, [])"

text \<open>
  The first loop of \<^verbatim>\<open>cleanup\<close> finds the earliest \<^verbatim>\<open>Added\<close>, starting from the
  clock reading; the sweeper then sleeps for
  \<^verbatim>\<open>firstEvent.Add(lifetime).Add(time.Second).Sub(time.Now())\<close>, where \<open>now'\<close> is
  the second clock reading.
\<close>

fun firstEvent_loop :: "Time \<Rightarrow> Device list \<Rightarrow> Time" where
  "firstEvent_loop firstEvent [] = firstEvent"
| "firstEvent_loop firstEvent (d # ds) =
     firstEvent_loop (if time_After firstEvent (Added d) then Added d else firstEvent) ds"

definition cleanup_wake :: "Time \<Rightarrow> Duration \<Rightarrow> Device list \<Rightarrow> Time" where
  "cleanup_wake now lt ds = time_Add (time_Add (firstEvent_loop now ds) lt) Second"

definition cleanup_sleep :: "Time \<Rightarrow> Time \<Rightarrow> Duration \<Rightarrow> Device list \<Rightarrow> Duration" where
  "cleanup_sleep now now' lt ds = time_Sub (cleanup_wake now lt ds) now'"

text \<open>
  The condition of the sweep, and the key of an entry, named for the statements below.
\<close>

definition expired :: "Time \<Rightarrow> Duration \<Rightarrow> Device \<Rightarrow> bool" where
  "expired now lt d = (time_Since now (Added d) > lt)"

definition expired_at :: "(nat \<Rightarrow> Time) \<Rightarrow> Duration \<Rightarrow> nat \<times> Device \<Rightarrow> bool" where
  "expired_at clock lt x = expired (clock (fst x)) lt (snd x)"

definition has_key :: "string \<Rightarrow> string \<Rightarrow> Device \<Rightarrow> bool" where
  "has_key ea ia d = (InternalAddress d = ia \<and> ExternalAddress d = ea)"

definition key_of :: "Device \<Rightarrow> string \<times> string" where
  "key_of d = (ExternalAddress d, InternalAddress d)"

definition entry :: "Time \<Rightarrow> string \<Rightarrow> string \<Rightarrow> string \<Rightarrow> int \<Rightarrow> Device" where
  "entry now ea ia nm p =
     \<lparr>ExternalAddress = ea, InternalAddress = ia, Port = p, Name = nm, Added = now\<rparr>"

subsection \<open>Sequences of operations on the store\<close>

text \<open>
  Registrations and sweeps take the write lock, so a run of the service is a sequence of
  them, each with the clock reading it made.
\<close>

datatype op = OpRegister Time string string string int | OpCleanup Time

fun step :: "Duration \<Rightarrow> op \<Rightarrow> Device list \<Rightarrow> Device list" where
  "step lt (OpRegister now ea ia nm p) ds = RegisterDevice_store now ea ia nm p ds"
| "step lt (OpCleanup now) ds = fst (cleanup_sweep now lt ds)"

fun run_ops :: "Duration \<Rightarrow> op list \<Rightarrow> Device list \<Rightarrow> Device list" where
  "run_ops lt [] ds = ds"
| "run_ops lt (x # xs) ds = run_ops lt xs (step lt x ds)"

fun registers :: "string \<Rightarrow> string \<Rightarrow> op \<Rightarrow> bool" where
  "registers ea ia (OpRegister now ea' ia' nm p) = (ea' = ea \<and> ia' = ia)"
| "registers ea ia (OpCleanup now) = False"

fun op_time :: "op \<Rightarrow> Time" where
  "op_time (OpRegister now ea ia nm p) = now"
| "op_time (OpCleanup now) = now"

subsection \<open>The sweeper on time\<close>

text \<open>
  The goroutine \<^verbatim>\<open>cleanup\<close> runs beside the registrations. Its state between two
  sweeps is the time \<open>c\<close> at which it started the turn of its outer loop (and read the
  earliest \<^verbatim>\<open>Added\<close>) and the time \<open>wake\<close> at which its sleep ends; \<^verbatim>\<open>time.Sleep\<close>
  returns at once for a duration that is not positive. The sweeper is on time when
  reading the store, and sweeping it, take no time, and the sleep ends exactly when it
  should: then the sweep runs at \<open>wake\<close>, and the next turn starts at that instant
  on the store that the sweep has left. A registration at the time \<open>now\<close> falls into
  the sleep when \<open>c \<le> now\<close> and \<open>now \<le> wake\<close>. A run is a sequence of events
  in the order in which they take the lock; an event that is out of place in time
  gives \<open>None\<close>.
\<close>

datatype event = EvRegister Time string string string int | EvSweep

definition sweeper_turn :: "Duration \<Rightarrow> Time \<Rightarrow> Device list \<Rightarrow> Device list \<times> Time \<times> Time" where
  "sweeper_turn lt c ds = (ds, c, c + max 0 (cleanup_sleep c c lt ds))"

fun on_time_step ::
  "Duration \<Rightarrow> event \<Rightarrow> Device list \<times> Time \<times> Time \<Rightarrow> (Device list \<times> Time \<times> Time) option" where
  "on_time_step lt (EvRegister now ea ia nm p) (ds, c, wake) =
     (if c \<le> now \<and> now \<le> wake then Some (RegisterDevice_store now ea ia nm p ds, c, wake)
      else None)"
| "on_time_step lt EvSweep (ds, c, wake) =
     Some (sweeper_turn lt wake (fst (cleanup_sweep wake lt ds)))"

fun on_time_run ::
  "Duration \<Rightarrow> event list \<Rightarrow> Device list \<times> Time \<times> Time \<Rightarrow> (Device list \<times> Time \<times> Time) option" where
  "on_time_run lt [] st = Some st"
| "on_time_run lt (e # es) st =
     (case on_time_step lt e st of None \<Rightarrow> None | Some st' \<Rightarrow> on_time_run lt es st')"

fun re_registers :: "string \<Rightarrow> string \<Rightarrow> event \<Rightarrow> bool" where
  "re_registers ea ia (EvRegister now ea' ia' nm p) = (ea' = ea \<and> ia' = ia)"
| "re_registers ea ia EvSweep = False"

text \<open>
  What holds of the sweeper on time between two sweeps: the next sweep is not before
  the start of the turn, at most the lifetime and a second after it, and at most the
  lifetime and a second after the \<^verbatim>\<open>Added\<close> of every entry.
\<close>

definition on_time_inv :: "Duration \<Rightarrow> Device list \<times> Time \<times> Time \<Rightarrow> bool" where
  "on_time_inv lt st =
     (case st of (ds, c, wake) \<Rightarrow>
        c \<le> wake \<and> wake \<le> c + lt + Second \<and> list_all (\<lambda>d. wake \<le> Added d + lt + Second) ds)"

subsection \<open>ListDevices: the JSON of the devices of an external address\<close>

text \<open>
  The value that \<^verbatim>\<open>encoding/json\<close> writes for a \<^verbatim>\<open>Device\<close>, read off the struct
  tags: \<^verbatim>\<open>ExternalAddress\<close> is tagged \<^verbatim>\<open>"-"\<close>, \<^verbatim>\<open>Port\<close> is tagged
  \<^verbatim>\<open>omitempty\<close>, the other fields appear under their tag names in the order of the
  struct. The text of a \<^verbatim>\<open>time.Time\<close> is the library's: \<open>tm\<close> is
  \<^verbatim>\<open>Time.MarshalJSON\<close>, which fails for a year outside of 0..9999, and then
  \<^verbatim>\<open>Encode\<close> fails and \<^verbatim>\<open>ListDevices\<close> panics.
\<close>

datatype json = JString string | JNumber int | JArray "json list" | JObject "(string \<times> json) list"

definition json_Device :: "(Time \<Rightarrow> string option) \<Rightarrow> Device \<Rightarrow> json option" where
  "json_Device tm d =
     (case tm (Added d) of
        None \<Rightarrow> None
      | Some s \<Rightarrow>
          Some (JObject
            ([(''internaladdress'', JString (InternalAddress d))] @
             (if Port d = 0 then [] else [(''port'', JNumber (Port d))]) @
             [(''name'', JString (Name d)), (''added'', JString s)])))"





subsection \<open>Startup: restoring the devices from the dump\<close>

text \<open>
  The file system as far as \<^verbatim>\<open>os.Stat\<close> and \<^verbatim>\<open>os.Open\<close> see it: at a path there
  is no file, a name that cannot be reached (\<^verbatim>\<open>os.Stat\<close> fails, and not with
  "not exist"), a file that cannot be opened for reading, or a file with its bytes. The
  decoder \<open>dec\<close> is \<^verbatim>\<open>gob.NewDecoder(fd).Decode(&d)\<close>: it gives what it has put
  into \<open>d\<close> and its error, if any.
\<close>

datatype node = Absent | Unreachable | Unreadable | Content "nat list"

datatype os_error = ErrNotExist | ErrPermission

datatype load_error = OsError os_error | GobError string

definition os_Stat :: "(string \<Rightarrow> node) \<Rightarrow> string \<Rightarrow> os_error option" where
  "os_Stat fs path =
     (case fs path of
        Absent \<Rightarrow> Some ErrNotExist
      | Unreachable \<Rightarrow> Some ErrPermission
      | _ \<Rightarrow> None)"

definition os_IsNotExist :: "os_error option \<Rightarrow> bool" where
  "os_IsNotExist err = (err = Some ErrNotExist)"

definition os_Open :: "(string \<Rightarrow> node) \<Rightarrow> string \<Rightarrow> os_error + nat list" where
  "os_Open fs path =
     (case fs path of
        Absent \<Rightarrow> Inl ErrNotExist
      | Unreachable \<Rightarrow> Inl ErrPermission
      | Unreadable \<Rightarrow> Inl ErrPermission
      | Content bs \<Rightarrow> Inr bs)"

definition loadDevices ::
  "(nat list \<Rightarrow> Device list \<times> string option) \<Rightarrow> (string \<Rightarrow> node) \<Rightarrow> string \<Rightarrow>
     Device list \<times> load_error option" where
  "loadDevices dec fs dumpPath =
     (case os_Open fs dumpPath of
        Inl e \<Rightarrow> ([], Some (OsError e))
      | Inr bs \<Rightarrow> (fst (dec bs), map_option GobError (snd (dec bs))))"

text \<open>
  The first statement of \<^verbatim>\<open>main\<close> after the flags: the devices it restores, and
  the error on which it calls \<^verbatim>\<open>log.Fatal\<close>.
\<close>

definition main_load ::
  "(nat list \<Rightarrow> Device list \<times> string option) \<Rightarrow> (string \<Rightarrow> node) \<Rightarrow> string \<Rightarrow>
     Device list \<times> load_error option" where
  "main_load dec fs dumpPath =
     (if dumpPath = [] \<or> os_IsNotExist (os_Stat fs dumpPath) then ([], None)
      else loadDevices dec fs dumpPath)"

datatype startup = Fatal load_error | Serving "Device list"

definition main_startup ::
  "(nat list \<Rightarrow> Device list \<times> string option) \<Rightarrow> (string \<Rightarrow> node) \<Rightarrow> string \<Rightarrow> startup" where
  "main_startup dec fs dumpPath =
     (case main_load dec fs dumpPath of
        (d, Some e) \<Rightarrow> Fatal e
      | (d, None) \<Rightarrow> Serving d)"

section \<open>The redirect variant: a map from remote address to device\<close>

record device =
  id' :: string
  name :: string
  address :: string
  added :: Time

definition fallback :: string where
  "fallback = ''http://example.org''"

text \<open>
  \<^verbatim>\<open>cleanup\<close> ranges over the map and deletes the entries older than the lifetime.
  Whether an entry is deleted depends on that entry only, so the order of the range
  does not show in the result.
\<close>

definition cleanup :: "Time \<Rightarrow> (string \<rightharpoonup> device) \<Rightarrow> (string \<rightharpoonup> device)" where
  "cleanup now m =
     (\<lambda>key. case m key of
        None \<Rightarrow> None
      | Some d \<Rightarrow> if time_Since now (added d) > lifetime then None else Some d)"

text \<open>
  The handler of \<^verbatim>\<open>/register\<close>: \<open>i\<close>, \<open>nm\<close> and \<open>a\<close> are the query parameters
  \<^verbatim>\<open>id\<close>, \<^verbatim>\<open>name\<close> and \<^verbatim>\<open>address\<close>, \<open>ra\<close> is \<^verbatim>\<open>r.RemoteAddr\<close> (host and
  port of the peer), which is the key of the map as it stands. The handler
  of \<^verbatim>\<open>/\<close> redirects to the address stored for \<open>ra\<close>, or to the fallback; it does
  not read the clock. The clock readings of one call of the \<^verbatim>\<open>/register\<close> handler
  (\<^verbatim>\<open>time.Now()\<close> for the new entry, \<^verbatim>\<open>time.Since\<close> in \<^verbatim>\<open>cleanup\<close>) are taken as
  the one instant \<open>now\<close>.
\<close>

definition register_handler ::
  "Time \<Rightarrow> string \<Rightarrow> string \<Rightarrow> string \<Rightarrow> string \<Rightarrow> (string \<rightharpoonup> device) \<Rightarrow> (string \<rightharpoonup> device)" where
  "register_handler now ra i nm a m =
     cleanup now (m(ra \<mapsto> \<lparr>id' = i, name = nm, address = ''http://'' @ a, added = now\<rparr>))"

text \<open>
  \<^verbatim>\<open>http.Redirect(w, r, url, 302)\<close> rewrites a \<^verbatim>\<open>url\<close> only when it has neither scheme
  nor host; the targets of this handler start with \<^verbatim>\<open>http://\<close>, and for them it sets
  the \<^verbatim>\<open>Location\<close> header to \<^verbatim>\<open>hexEscapeNonASCII(url)\<close>: every byte from 128 on is
  replaced by \<^verbatim>\<open>%\<close> and its two hexadecimal digits in lower case. A \<open>char\<close> is a byte.
  \<open>Found l\<close> is the response 302 with the \<^verbatim>\<open>Location\<close> header \<open>l\<close>.
\<close>

definition hex_digit :: "nat \<Rightarrow> char" where
  "hex_digit n = ''0123456789abcdef'' ! n"

fun hexEscapeNonASCII :: "string \<Rightarrow> string" where
  "hexEscapeNonASCII [] = []"
| "hexEscapeNonASCII (c # cs) =
     (if (of_char c :: nat) \<ge> 128
      then CHR ''%'' # hex_digit (of_char c div 16) # hex_digit (of_char c mod 16) #
           hexEscapeNonASCII cs
      else c # hexEscapeNonASCII cs)"

datatype response = Found string | Empty

definition root_handler :: "string \<Rightarrow> (string \<rightharpoonup> device) \<Rightarrow> response" where
  "root_handler ra m =
     (case m ra of
        Some d \<Rightarrow> Found (hexEscapeNonASCII (address d))
      | None \<Rightarrow> Found (hexEscapeNonASCII fallback))"

text \<open>
  A run of the redirect variant: the requests in the order in which they take the lock,
  each with the time at which it is served, and the responses.
\<close>

datatype request = ReqRegister Time string string string string | ReqLookup Time string

fun serve :: "request list \<Rightarrow> (string \<rightharpoonup> device) \<Rightarrow> response list" where
  "serve [] m = []"
| "serve (ReqRegister now ra i nm a # rs) m = Empty # serve rs (register_handler now ra i nm a m)"
| "serve (ReqLookup now ra # rs) m = root_handler ra m # serve rs m"

fun store_after :: "request list \<Rightarrow> (string \<rightharpoonup> device) \<Rightarrow> (string \<rightharpoonup> device)" where
  "store_after [] m = m"
| "store_after (ReqRegister now ra i nm a # rs) m = store_after rs (register_handler now ra i nm a m)"
| "store_after (ReqLookup now ra # rs) m = store_after rs m"



fun is_register :: "request \<Rightarrow> bool" where
  "is_register (ReqRegister now ra i nm a) = True"
| "is_register (ReqLookup now ra) = False"

section \<open>Properties of the clock arithmetic\<close>

lemma time_Sub_plain:
  "minDuration \<le> t - u \<Longrightarrow> t - u \<le> maxDuration \<Longrightarrow> time_Sub t u = t - u"
  by (simp add: time_Sub_def)

lemma time_Sub_self: "time_Sub t t = 0"
  by (simp add: time_Sub_def maxDuration_def minDuration_def)

lemma time_Sub_mono: "t' \<le> T \<Longrightarrow> time_Sub t' u \<le> time_Sub T u"
  by (simp add: time_Sub_def maxDuration_def minDuration_def)

lemma time_Sub_anti: "u \<le> u' \<Longrightarrow> time_Sub t u' \<le> time_Sub t u"
  by (simp add: time_Sub_def maxDuration_def minDuration_def)

lemma lifetime_nonneg: "0 \<le> lifetime"
  by (simp add: lifetime_def Hour_def Second_def)

lemma not_expired_by_time:
  "minDuration \<le> lt \<Longrightarrow> now - t0 \<le> lt \<Longrightarrow> \<not> time_Since now t0 > lt"
  by (simp add: time_Since_def time_Sub_def maxDuration_def minDuration_def)

lemma expired_by_time:
  "lt < maxDuration \<Longrightarrow> now - t0 > lt \<Longrightarrow> time_Since now t0 > lt"
  by (simp add: time_Since_def time_Sub_def maxDuration_def minDuration_def)

lemma Second_pos: "0 < Second"
  by (simp add: Second_def)

lemma time_Since_gt_iff:
  "minDuration \<le> lt \<Longrightarrow> lt < maxDuration \<Longrightarrow> (time_Since now t > lt) = (now - t > lt)"
  by (simp add: time_Since_def time_Sub_def maxDuration_def minDuration_def)

lemma lifetime_in_range: "minDuration \<le> lifetime \<and> lifetime < maxDuration"
  by (simp add: minDuration_def maxDuration_def lifetime_def Hour_def Second_def)


section \<open>Properties of the listing variant\<close>

subsection \<open>Registration, the sweep and the keys of the store\<close>

lemma findDevice_from_hit:
  "\<forall>x\<in>set pre. \<not> has_key ea ia x \<Longrightarrow> has_key ea ia d \<Longrightarrow>
   findDevice_from i ia ea (pre @ d # post) = (int (i + length pre), True)"
  by (induction pre arbitrary: i) (auto simp: has_key_def)

lemma findDevice_from_miss:
  "\<forall>x\<in>set ds. \<not> has_key ea ia x \<Longrightarrow> findDevice_from i ia ea ds = (- 1, False)"
  by (induction ds arbitrary: i) (auto simp: has_key_def)

lemma has_key_update:
  "has_key ea ia d \<Longrightarrow> d\<lparr>Name := nm, Port := p, Added := now\<rparr> = entry now ea ia nm p"
  by (simp add: has_key_def entry_def)

lemma RegisterDevice_store_hit:
  assumes "\<forall>x\<in>set pre. \<not> has_key ea ia x" and "has_key ea ia d"
  shows "RegisterDevice_store now ea ia nm p (pre @ d # post) = pre @ entry now ea ia nm p # post"
  using assms
  by (simp add: RegisterDevice_store_def findDevice_def findDevice_from_hit has_key_update)

lemma RegisterDevice_store_miss:
  assumes "\<forall>x\<in>set ds. \<not> has_key ea ia x"
  shows "RegisterDevice_store now ea ia nm p ds = ds @ [entry now ea ia nm p]"
  using assms
  by (simp add: RegisterDevice_store_def findDevice_def findDevice_from_miss entry_def)

lemma first_hit:
  assumes "\<exists>x\<in>set ds. has_key ea ia x"
  obtains pre d post where "ds = pre @ d # post" and "has_key ea ia d"
    and "\<forall>x\<in>set pre. \<not> has_key ea ia x"
  using split_list_first_prop [OF assms] by blast

lemma has_key_key_of: "has_key ea ia d = (key_of d = (ea, ia))"
  by (auto simp: has_key_def key_of_def)

lemma has_key_entry: "has_key ea ia (entry now ea ia nm p)"
  by (simp add: has_key_def entry_def)

lemma key_of_entry: "key_of (entry now ea ia nm p) = (ea, ia)"
  by (simp add: key_of_def entry_def)

lemma Added_entry: "Added (entry now ea ia nm p) = now"
  by (simp add: entry_def)

lemma distinct_RegisterDevice_store:
  assumes "distinct (map key_of ds)"
  shows "distinct (map key_of (RegisterDevice_store now ea ia nm p ds))"
proof (cases "\<exists>x\<in>set ds. has_key ea ia x")
  case True
  then obtain pre d post where ds: "ds = pre @ d # post" and d: "has_key ea ia d"
    and pre: "\<forall>x\<in>set pre. \<not> has_key ea ia x"
    by (rule first_hit)
  from d have "key_of (entry now ea ia nm p) = key_of d"
    by (simp add: key_of_entry has_key_key_of)
  with assms show ?thesis
    unfolding ds RegisterDevice_store_hit [OF pre d] by simp
next
  case False
  then have no: "\<forall>x\<in>set ds. \<not> has_key ea ia x" by simp
  then have "(ea, ia) \<notin> set (map key_of ds)" by (auto simp: has_key_key_of)
  with assms show ?thesis
    unfolding RegisterDevice_store_miss [OF no] by (simp add: key_of_entry)
qed

lemma expired_at_pair: "expired_at clock lt (i, d) = expired (clock i) lt d"
  by (simp add: expired_at_def)

lemma enumerate_take_Suc:
  "n < length ds \<Longrightarrow> enumerate 0 (take (Suc n) ds) = enumerate 0 (take n ds) @ [(n, ds ! n)]"
  by (simp add: take_Suc_conv_app_nth enumerate_append_eq)

lemma cleanup_loop_enumerate:
  "n \<le> length ds \<Longrightarrow>
   cleanup_loop n clock lt (ds, lg) =
     (map snd (filter (\<lambda>x. \<not> expired_at clock lt x) (enumerate 0 (take n ds))) @ drop n ds,
      lg @ map (deleting_line \<circ> snd) (rev (filter (expired_at clock lt) (enumerate 0 (take n ds)))))"
proof (induction n arbitrary: ds lg)
  case 0
  then show ?case by simp
next
  case (Suc n)
  then have n: "n < length ds" by simp
  note tk = enumerate_take_Suc [OF n]
  have dr: "drop n ds = ds ! n # drop (Suc n) ds"
    using n by (simp add: Cons_nth_drop_Suc)
  show ?case
  proof (cases "expired (clock n) lt (ds ! n)")
    case True
    let ?ds' = "take n ds @ drop (Suc n) ds"
    have len: "n \<le> length ?ds'" using n by simp
    have t': "take n ?ds' = take n ds" using n by simp
    have d': "drop n ?ds' = drop (Suc n) ds" using n by simp
    from True have "cleanup_loop (Suc n) clock lt (ds, lg) =
        cleanup_loop n clock lt (?ds', lg @ [deleting_line (ds ! n)])"
      by (simp add: expired_def)
    also have "\<dots> =
        (map snd (filter (\<lambda>x. \<not> expired_at clock lt x) (enumerate 0 (take n ds))) @
           drop (Suc n) ds,
         (lg @ [deleting_line (ds ! n)]) @
           map (deleting_line \<circ> snd) (rev (filter (expired_at clock lt) (enumerate 0 (take n ds)))))"
      using Suc.IH [OF len] by (simp only: t' d')
    finally show ?thesis using True by (simp add: tk expired_at_pair)
  next
    case False
    have len: "n \<le> length ds" using n by simp
    from False have "cleanup_loop (Suc n) clock lt (ds, lg) = cleanup_loop n clock lt (ds, lg)"
      by (simp add: expired_def)
    also note Suc.IH [OF len]
    finally show ?thesis using False by (simp add: tk dr expired_at_pair)
  qed
qed

lemma filter_enumerate_snd:
  "map snd (filter (\<lambda>x. P (snd x)) (enumerate n xs)) = filter P xs"
  by (induction xs arbitrary: n) simp_all

lemma filter_enumerate_snd':
  "map (f \<circ> snd) (filter (\<lambda>x. P (snd x)) (enumerate n xs)) = map f (filter P xs)"
  by (induction xs arbitrary: n) simp_all

lemma cleanup_sweep_filter:
  "cleanup_sweep now lt ds =
     (filter (\<lambda>d. \<not> expired now lt d) ds,
      map deleting_line (rev (filter (expired now lt) ds)))"
proof -
  have e: "expired_at (\<lambda>i. now) lt = (\<lambda>x. expired now lt (snd x))"
    by (simp add: expired_at_def fun_eq_iff)
  have 1: "map snd (filter (\<lambda>x. \<not> expired now lt (snd x)) (enumerate 0 ds)) =
      filter (\<lambda>d. \<not> expired now lt d) ds"
    by (rule filter_enumerate_snd [of "\<lambda>d. \<not> expired now lt d"])
  have "map (deleting_line \<circ> snd) (rev (filter (\<lambda>x. expired now lt (snd x)) (enumerate 0 ds))) =
      rev (map (deleting_line \<circ> snd) (filter (\<lambda>x. expired now lt (snd x)) (enumerate 0 ds)))"
    by (simp only: rev_map)
  also have "\<dots> = rev (map deleting_line (filter (expired now lt) ds))"
    by (simp only: filter_enumerate_snd')
  also have "\<dots> = map deleting_line (rev (filter (expired now lt) ds))"
    by (simp only: rev_map)
  finally have 2: "map (deleting_line \<circ> snd)
      (rev (filter (\<lambda>x. expired now lt (snd x)) (enumerate 0 ds))) =
      map deleting_line (rev (filter (expired now lt) ds))" .
  have "cleanup_sweep now lt ds =
      (map snd (filter (\<lambda>x. \<not> expired now lt (snd x)) (enumerate 0 ds)),
       map (deleting_line \<circ> snd) (rev (filter (\<lambda>x. expired now lt (snd x)) (enumerate 0 ds))))"
    unfolding cleanup_sweep_def using cleanup_loop_enumerate [of "length ds" ds "\<lambda>i. now" lt "[]"]
    by (simp add: e)
  then show ?thesis by (simp only: 1 2)
qed

lemma subseq_map_snd_enumerate:
  "subseq (map snd (filter Q (enumerate n xs))) xs"
proof -
  have "subseq (map snd (filter Q (enumerate n xs))) (map snd (enumerate n xs))"
    by (intro subseq_map subseq_filter_left)
  then show ?thesis by simp
qed


lemma distinct_step: "distinct (map key_of ds) \<Longrightarrow> distinct (map key_of (step lt x ds))"
  by (cases x) (simp_all add: distinct_RegisterDevice_store cleanup_sweep_filter distinct_map_filter)

lemma distinct_run_ops:
  "distinct (map key_of ds) \<Longrightarrow> distinct (map key_of (run_ops lt xs ds))"
  by (induction xs arbitrary: ds) (simp_all add: distinct_step)

lemma filter_key_distinct:
  assumes "distinct (map key_of (pre @ d # post))" and "has_key ea ia d"
  shows "filter (has_key ea ia) (pre @ e # post) = filter (has_key ea ia) [e]"
proof -
  from assms have "\<forall>x\<in>set pre \<union> set post. key_of x \<noteq> (ea, ia)"
    by (auto simp: has_key_key_of image_iff)
  then have "filter (has_key ea ia) pre = []" "filter (has_key ea ia) post = []"
    by (auto simp: has_key_key_of filter_empty_conv)
  then show ?thesis by simp
qed


lemma filter_key_le_1:
  "distinct (map key_of ds) \<Longrightarrow> length (filter (has_key ea ia) ds) \<le> 1"
proof (induction ds)
  case Nil
  then show ?case by simp
next
  case (Cons d ds)
  show ?case
  proof (cases "has_key ea ia d")
    case True
    with Cons.prems have "\<forall>x\<in>set ds. \<not> has_key ea ia x"
      by (auto simp: has_key_key_of image_iff)
    then have "filter (has_key ea ia) ds = []" by (simp add: filter_empty_conv)
    with True show ?thesis by simp
  next
    case False
    with Cons show ?thesis by simp
  qed
qed

text \<open>
  Claim C1. In a store reached from the empty one by registrations and sweeps,
  registering the pair \<open>(ea, ia)\<close> leaves exactly one entry with that key, and that
  entry has the name and the port of the request and \<open>Added\<close> set to the clock
  reading; the entries with other keys are as before, in the same order. When an entry
  with the key was there (\<^verbatim>\<open>findDevice\<close> returns \<^verbatim>\<open>true\<close>), it is updated in place and
  the store keeps its length; when none was there, the store grows by the new entry.
\<close>

theorem register_upsert:
  "filter (has_key ea ia) (RegisterDevice_store now ea ia nm p (run_ops lt xs [])) =
     [\<lparr>ExternalAddress = ea, InternalAddress = ia, Port = p, Name = nm, Added = now\<rparr>] \<and>
   filter (\<lambda>d. \<not> has_key ea ia d) (RegisterDevice_store now ea ia nm p (run_ops lt xs [])) =
     filter (\<lambda>d. \<not> has_key ea ia d) (run_ops lt xs []) \<and>
   length (RegisterDevice_store now ea ia nm p (run_ops lt xs [])) =
     (if snd (findDevice ia ea (run_ops lt xs [])) then length (run_ops lt xs [])
      else Suc (length (run_ops lt xs []))) \<and>
   snd (findDevice ia ea (run_ops lt xs [])) = (\<exists>d\<in>set (run_ops lt xs []). has_key ea ia d)"
proof -
  let ?ds = "run_ops lt xs []"
  have dist: "distinct (map key_of ?ds)" by (rule distinct_run_ops) simp
  show ?thesis
  proof (cases "\<exists>x\<in>set ?ds. has_key ea ia x")
    case True
    then obtain pre d post where ds: "?ds = pre @ d # post" and d: "has_key ea ia d"
      and pre: "\<forall>x\<in>set pre. \<not> has_key ea ia x"
      by (rule first_hit)
    have f: "findDevice ia ea ?ds = (int (length pre), True)"
      unfolding ds findDevice_def using findDevice_from_hit [OF pre d, of 0 post] by simp
    have r: "RegisterDevice_store now ea ia nm p ?ds = pre @ entry now ea ia nm p # post"
      unfolding ds by (rule RegisterDevice_store_hit [OF pre d])
    have 1: "filter (has_key ea ia) (pre @ entry now ea ia nm p # post) = [entry now ea ia nm p]"
      using filter_key_distinct [of pre d post ea ia "entry now ea ia nm p"] dist d
      unfolding ds by (simp add: has_key_entry)
    have 2: "filter (\<lambda>d. \<not> has_key ea ia d) (pre @ entry now ea ia nm p # post) =
        filter (\<lambda>d. \<not> has_key ea ia d) (pre @ d # post)"
      using d by (simp add: has_key_entry)
    show ?thesis
      unfolding r f using 1 2 True by (simp add: ds entry_def)
  next
    case False
    then have no: "\<forall>x\<in>set ?ds. \<not> has_key ea ia x" by simp
    have f: "findDevice ia ea ?ds = (- 1, False)"
      unfolding findDevice_def by (rule findDevice_from_miss [OF no])
    have r: "RegisterDevice_store now ea ia nm p ?ds = ?ds @ [entry now ea ia nm p]"
      by (rule RegisterDevice_store_miss [OF no])
    have 1: "filter (has_key ea ia) ?ds = []"
      using no by (simp add: filter_empty_conv)
    have 2: "filter (\<lambda>d. \<not> has_key ea ia d) ?ds = ?ds"
      using no by (simp add: filter_id_conv)
    show ?thesis
      unfolding r f using 1 2 False by (simp add: has_key_entry) (simp add: entry_def)
  qed
qed


theorem register_upsert_witness:
  "RegisterDevice_store 7 ''203.0.113.5'' ''10.0.0.9'' ''printer-v2'' 0
     (run_ops lifetime [OpRegister 3 ''203.0.113.5'' ''10.0.0.9'' ''printer'' 9100] []) =
     [\<lparr>ExternalAddress = ''203.0.113.5'', InternalAddress = ''10.0.0.9'', Port = 0,
       Name = ''printer-v2'', Added = 7\<rparr>] \<and>
   filter (has_key ''203.0.113.5'' ''10.0.0.9'')
     (RegisterDevice_store 7 ''203.0.113.5'' ''10.0.0.9'' ''printer-v2'' 0
       (run_ops lifetime [OpRegister 3 ''203.0.113.5'' ''10.0.0.9'' ''printer'' 9100] [])) =
     [\<lparr>ExternalAddress = ''203.0.113.5'', InternalAddress = ''10.0.0.9'', Port = 0,
       Name = ''printer-v2'', Added = 7\<rparr>]"
  using register_upsert [of "''203.0.113.5''" "''10.0.0.9''" 7 "''printer-v2''" 0 lifetime
      "[OpRegister 3 ''203.0.113.5'' ''10.0.0.9'' ''printer'' 9100]"]
  by (simp add: RegisterDevice_store_def findDevice_def)

text \<open>
  Claim C2. A store reached from the empty one by any sequence of registrations and
  sweeps has pairwise distinct keys (external address, internal address): the number of
  entries with a given key is at most one. Each single operation preserves the
  distinctness of the keys.
\<close>

theorem no_duplicate_keys:
  "distinct (map key_of (run_ops lt xs [])) \<and>
   length (filter (has_key ea ia) (run_ops lt xs [])) \<le> 1 \<and>
   (distinct (map key_of ds) \<longrightarrow> distinct (map key_of (step lt x ds)))"
proof -
  have d: "distinct (map key_of (run_ops lt xs []))" by (rule distinct_run_ops) simp
  from d have "length (filter (has_key ea ia) (run_ops lt xs [])) \<le> 1"
    by (rule filter_key_le_1)
  with d show ?thesis using distinct_step [of ds lt x] by blast
qed

theorem no_duplicate_keys_witness:
  "distinct (map key_of [entry 1 ''e'' ''a'' ''n'' 1, entry 2 ''e'' ''b'' ''n'' 2]) \<and>
   distinct (map key_of (step lifetime (OpRegister 3 ''e'' ''a'' ''m'' 0)
     [entry 1 ''e'' ''a'' ''n'' 1, entry 2 ''e'' ''b'' ''n'' 2])) \<and>
   step lifetime (OpRegister 3 ''e'' ''a'' ''m'' 0)
     [entry 1 ''e'' ''a'' ''n'' 1, entry 2 ''e'' ''b'' ''n'' 2] =
     [entry 3 ''e'' ''a'' ''m'' 0, entry 2 ''e'' ''b'' ''n'' 2]"
proof -
  have d: "distinct (map key_of [entry 1 ''e'' ''a'' ''n'' 1, entry 2 ''e'' ''b'' ''n'' 2])"
    by (simp add: key_of_def entry_def)
  from no_duplicate_keys [of lifetime "[]" "''e''" "''a''"
      "[entry 1 ''e'' ''a'' ''n'' 1, entry 2 ''e'' ''b'' ''n'' 2]" "OpRegister 3 ''e'' ''a'' ''m'' 0"] d
  have "distinct (map key_of (step lifetime (OpRegister 3 ''e'' ''a'' ''m'' 0)
      [entry 1 ''e'' ''a'' ''n'' 1, entry 2 ''e'' ''b'' ''n'' 2]))"
    by blast
  with d show ?thesis
    by (simp add: RegisterDevice_store_def findDevice_def entry_def)
qed

subsection \<open>The sweep\<close>

text \<open>
  Claim C3, as stated, fails in two ways. The age that the sweep compares with the
  lifetime is the \<^verbatim>\<open>Duration\<close> of \<^verbatim>\<open>time.Since\<close>, which stops at the greatest
  \<^verbatim>\<open>Duration\<close>: with the lifetime set to that value, an entry for which
  \<open>now - Added\<close> is greater still is kept. And \<^verbatim>\<open>cleanup\<close> returns nothing: all that
  the sweep of the redirect variant yields is the map, and that is the same whether it
  has removed one entry or none.
\<close>

theorem cleanup_count_counterexample:
  "(0 :: int) - (- (2 ^ 63)) > maxDuration \<and>
   fst (cleanup_sweep 0 maxDuration
     [entry (- (2 ^ 63)) ''203.0.113.5'' ''10.0.0.9'' ''printer'' 9100]) =
     [entry (- (2 ^ 63)) ''203.0.113.5'' ''10.0.0.9'' ''printer'' 9100] \<and>
   cleanup (2 * lifetime)
     [''203.0.113.5:4000'' \<mapsto>
        \<lparr>id' = ''a'', name = ''printer'', address = ''http://10.0.0.9'', added = 0\<rparr>] =
     cleanup (2 * lifetime) Map.empty \<and>
   dom [''203.0.113.5:4000'' \<mapsto>
        \<lparr>id' = ''a'', name = ''printer'', address = ''http://10.0.0.9'', added = 0\<rparr>] \<noteq>
     dom (Map.empty :: string \<rightharpoonup> device)"
proof -
  have "cleanup (2 * lifetime)
     [''203.0.113.5:4000'' \<mapsto>
        \<lparr>id' = ''a'', name = ''printer'', address = ''http://10.0.0.9'', added = 0\<rparr>] =
     cleanup (2 * lifetime) Map.empty"
    by (rule ext)
      (simp add: cleanup_def time_Since_def time_Sub_def lifetime_def Hour_def Second_def
        maxDuration_def minDuration_def)
  then show ?thesis
    by (simp add: cleanup_sweep_filter expired_def time_Since_def time_Sub_def
        maxDuration_def minDuration_def)
qed

text \<open>
  Claim C3, amended. For a lifetime from the least \<^verbatim>\<open>Duration\<close> up to, but not
  including, the greatest one, the sweep at the clock reading \<open>now\<close> leaves exactly the
  entries with \<open>now - Added \<le> lt\<close>, and logs one line for each entry it removes, the
  last one of the store first. For every lifetime it leaves exactly the entries whose
  age \<^verbatim>\<open>time.Since(d.Added)\<close> does not exceed the lifetime. No count is returned: the
  number of entries removed is the number of lines logged, which is the difference of
  the lengths of the store before and after. With the clock read anew in each turn of
  the loop, the entry at the index \<open>i\<close> is judged at the reading \<open>clock i\<close>. The sweep
  of the redirect variant logs nothing; it keeps exactly the keys whose entry has
  \<open>now - added \<le> lifetime\<close>, with their entries as they were, and the number of
  entries removed is the difference of the sizes of the map before and after.
\<close>

theorem cleanup_removes_expired:
  "(minDuration \<le> lt \<and> lt < maxDuration \<longrightarrow>
      fst (cleanup_sweep now lt ds) = filter (\<lambda>d. \<not> now - Added d > lt) ds \<and>
      snd (cleanup_sweep now lt ds) =
        map deleting_line (rev (filter (\<lambda>d. now - Added d > lt) ds))) \<and>
   fst (cleanup_sweep now lt ds) = filter (\<lambda>d. \<not> time_Since now (Added d) > lt) ds \<and>
   length (snd (cleanup_sweep now lt ds)) =
     length (filter (\<lambda>d. time_Since now (Added d) > lt) ds) \<and>
   length (snd (cleanup_sweep now lt ds)) = length ds - length (fst (cleanup_sweep now lt ds)) \<and>
   fst (cleanup_loop (length ds) clock lt (ds, [])) =
     map snd (filter (\<lambda>x. \<not> time_Since (clock (fst x)) (Added (snd x)) > lt) (enumerate 0 ds)) \<and>
   dom (cleanup now m) = {k. \<exists>d. m k = Some d \<and> \<not> now - added d > lifetime} \<and>
   cleanup now m \<subseteq>\<^sub>m m \<and>
   (finite (dom m) \<longrightarrow>
      card (dom m) - card (dom (cleanup now m)) =
        card {k. \<exists>d. m k = Some d \<and> now - added d > lifetime})"
proof -
  have e: "expired now lt = (\<lambda>d. time_Since now (Added d) > lt)"
    by (simp add: expired_def fun_eq_iff)
  have c1: "minDuration \<le> lt \<and> lt < maxDuration \<longrightarrow>
      fst (cleanup_sweep now lt ds) = filter (\<lambda>d. \<not> now - Added d > lt) ds \<and>
      snd (cleanup_sweep now lt ds) =
        map deleting_line (rev (filter (\<lambda>d. now - Added d > lt) ds))"
    by (simp add: cleanup_sweep_filter e time_Since_gt_iff)
  have c2: "fst (cleanup_sweep now lt ds) = filter (\<lambda>d. \<not> time_Since now (Added d) > lt) ds"
    by (simp add: cleanup_sweep_filter e)
  have c3: "length (snd (cleanup_sweep now lt ds)) =
      length (filter (\<lambda>d. time_Since now (Added d) > lt) ds)"
    by (simp add: cleanup_sweep_filter e)
  have "length ds = length (filter (expired now lt) ds) +
      length (filter (\<lambda>d. \<not> expired now lt d) ds)"
    by (rule sum_length_filter_compl [symmetric])
  then have c4: "length (snd (cleanup_sweep now lt ds)) =
      length ds - length (fst (cleanup_sweep now lt ds))"
    by (simp add: cleanup_sweep_filter)
  have c5: "fst (cleanup_loop (length ds) clock lt (ds, [])) =
      map snd (filter (\<lambda>x. \<not> time_Since (clock (fst x)) (Added (snd x)) > lt) (enumerate 0 ds))"
    by (simp add: cleanup_loop_enumerate expired_at_def expired_def)
  let ?kept = "{k. \<exists>d. m k = Some d \<and> \<not> now - added d > lifetime}"
  let ?gone = "{k. \<exists>d. m k = Some d \<and> now - added d > lifetime}"
  have ap: "cleanup now m k =
      (case m k of None \<Rightarrow> None | Some d \<Rightarrow> if now - added d > lifetime then None else Some d)"
    for k
    using lifetime_in_range by (simp add: cleanup_def time_Since_gt_iff split: option.splits)
  have c6: "dom (cleanup now m) = ?kept"
    by (auto simp: ap dom_def split: option.splits if_splits)
  have c7: "cleanup now m \<subseteq>\<^sub>m m"
    by (auto simp: map_le_def ap dom_def split: option.splits if_splits)
  have c8: "finite (dom m) \<longrightarrow> card (dom m) - card (dom (cleanup now m)) = card ?gone"
  proof
    assume fin: "finite (dom m)"
    have un: "dom m = ?kept \<union> ?gone" by (auto simp: dom_def)
    have dj: "?kept \<inter> ?gone = {}" by auto
    have "?kept \<subseteq> dom m" and "?gone \<subseteq> dom m" by (auto simp: dom_def)
    with fin have f1: "finite ?kept" and f2: "finite ?gone" by (auto intro: finite_subset)
    have "card (?kept \<union> ?gone) = card ?kept + card ?gone"
      using f1 f2 dj by (rule card_Un_disjoint)
    then have "card (dom m) = card ?kept + card ?gone" by (simp only: un [symmetric])
    then show "card (dom m) - card (dom (cleanup now m)) = card ?gone"
      by (simp only: c6 add_diff_cancel_left')
  qed
  show ?thesis
    using c1 c2 c3 c4 c5 c6 c7 c8 by (intro conjI)
qed

theorem cleanup_removes_expired_witness:
  "minDuration \<le> lifetime \<and> lifetime < maxDuration \<and>
   cleanup_sweep (lifetime + 5) lifetime
     [entry 3 ''203.0.113.5'' ''10.0.0.9'' ''printer'' 9100,
      entry 5 ''203.0.113.5'' ''10.0.0.7'' ''nas'' 0,
      entry 4 ''198.51.100.7'' ''10.0.0.9'' ''tv'' 0] =
     ([entry 5 ''203.0.113.5'' ''10.0.0.7'' ''nas'' 0],
      [''deleting 10.0.0.9 (timeout)'', ''deleting 10.0.0.9 (timeout)''])"
proof -
  note r = lifetime_in_range
  have "fst (cleanup_sweep (lifetime + 5) lifetime
     [entry 3 ''203.0.113.5'' ''10.0.0.9'' ''printer'' 9100,
      entry 5 ''203.0.113.5'' ''10.0.0.7'' ''nas'' 0,
      entry 4 ''198.51.100.7'' ''10.0.0.9'' ''tv'' 0]) =
     [entry 5 ''203.0.113.5'' ''10.0.0.7'' ''nas'' 0] \<and>
    snd (cleanup_sweep (lifetime + 5) lifetime
     [entry 3 ''203.0.113.5'' ''10.0.0.9'' ''printer'' 9100,
      entry 5 ''203.0.113.5'' ''10.0.0.7'' ''nas'' 0,
      entry 4 ''198.51.100.7'' ''10.0.0.9'' ''tv'' 0]) =
     [''deleting 10.0.0.9 (timeout)'', ''deleting 10.0.0.9 (timeout)'']"
    using cleanup_removes_expired [of lifetime "lifetime + 5"
      "[entry 3 ''203.0.113.5'' ''10.0.0.9'' ''printer'' 9100,
        entry 5 ''203.0.113.5'' ''10.0.0.7'' ''nas'' 0,
        entry 4 ''198.51.100.7'' ''10.0.0.9'' ''tv'' 0]", THEN conjunct1] r
    by (simp add: Added_entry) (simp add: entry_def deleting_line_def)
  with r show ?thesis by (simp add: prod_eq_iff)
qed


text \<open>
  Claim C9. The entries that survive a sweep are entries of the store before, unchanged
  and in their order: the store after the sweep is a subsequence of the store before,
  whatever the clock readings of the loop are.
\<close>

theorem cleanup_frame:
  "subseq (fst (cleanup_loop (length ds) clock lt (ds, []))) ds \<and>
   subseq (fst (cleanup_sweep now lt ds)) ds"
  by (simp add: cleanup_sweep_filter cleanup_loop_enumerate subseq_map_snd_enumerate)

subsection \<open>Listing\<close>



lemma json_Device_None: "(json_Device tm d = None) = (tm (Added d) = None)"
  by (simp add: json_Device_def split: option.splits)





lemma entry_in_RegisterDevice_store:
  "entry now ea ia nm p \<in> set (RegisterDevice_store now ea ia nm p ds)"
proof (cases "\<exists>x\<in>set ds. has_key ea ia x")
  case True
  then obtain pre d post where ds: "ds = pre @ d # post" and d: "has_key ea ia d"
    and pre: "\<forall>x\<in>set pre. \<not> has_key ea ia x"
    by (rule first_hit)
  show ?thesis unfolding ds RegisterDevice_store_hit [OF pre d] by simp
next
  case False
  then have no: "\<forall>x\<in>set ds. \<not> has_key ea ia x" by simp
  show ?thesis unfolding RegisterDevice_store_miss [OF no] by simp
qed





subsection \<open>Startup\<close>

lemma loadDevices_Absent:
  "fs path = Absent \<Longrightarrow> loadDevices dec fs path = ([], Some (OsError ErrNotExist))"
  by (simp add: loadDevices_def os_Open_def)

text \<open>
  Claim C5. At startup, when the dump path is empty or there is no file at it, the
  devices are the empty collection and there is no error: \<^verbatim>\<open>main\<close> asks \<^verbatim>\<open>os.Stat\<close>
  first and does not call \<^verbatim>\<open>loadDevices\<close> then (which by itself returns the error of
  \<^verbatim>\<open>os.Open\<close> for a missing file, see \<open>loadDevices_Absent\<close>). When the file is there
  and cannot be reached or opened, or the decoder reports an error, \<^verbatim>\<open>loadDevices\<close> returns the
  error and \<^verbatim>\<open>main\<close> ends with \<^verbatim>\<open>log.Fatal\<close>; it serves only when there was no error.
\<close>

theorem load_at_startup:
  "(path = [] \<or> fs path = Absent \<longrightarrow>
      main_load dec fs path = ([], None) \<and> main_startup dec fs path = Serving []) \<and>
   (path \<noteq> [] \<and> (fs path = Unreadable \<or> fs path = Unreachable) \<longrightarrow>
      loadDevices dec fs path = ([], Some (OsError ErrPermission)) \<and>
      main_load dec fs path = ([], Some (OsError ErrPermission)) \<and>
      main_startup dec fs path = Fatal (OsError ErrPermission)) \<and>
   (path \<noteq> [] \<and> fs path = Content bs \<and> snd (dec bs) = Some e \<longrightarrow>
      snd (loadDevices dec fs path) = Some (GobError e) \<and>
      snd (main_load dec fs path) = Some (GobError e) \<and>
      main_startup dec fs path = Fatal (GobError e)) \<and>
   (path \<noteq> [] \<and> fs path = Content bs \<and> snd (dec bs) = None \<longrightarrow>
      main_startup dec fs path = Serving (fst (dec bs)))"
  by (auto simp: main_startup_def main_load_def loadDevices_def os_Open_def os_Stat_def
      os_IsNotExist_def split: prod.splits option.splits)

theorem load_at_startup_witness:
  "main_startup (\<lambda>bs. ([], Some ''unexpected EOF''))
     (\<lambda>p. if p = ''dump'' then Content [1, 2] else if p = ''locked'' then Unreadable else Absent)
     ''dump'' = Fatal (GobError ''unexpected EOF'') \<and>
   main_startup (\<lambda>bs. ([], Some ''unexpected EOF''))
     (\<lambda>p. if p = ''dump'' then Content [1, 2] else if p = ''locked'' then Unreadable else Absent)
     ''locked'' = Fatal (OsError ErrPermission) \<and>
   main_startup (\<lambda>bs. ([], Some ''unexpected EOF''))
     (\<lambda>p. if p = ''dump'' then Content [1, 2] else if p = ''locked'' then Unreadable else Absent)
     ''none'' = Serving []"
  using load_at_startup [of "''dump''"
      "\<lambda>p. if p = ''dump'' then Content [1, 2] else if p = ''locked'' then Unreadable else Absent"
      "\<lambda>bs. ([], Some ''unexpected EOF'')" "[1, 2]" "''unexpected EOF''"]
    load_at_startup [of "''locked''"
      "\<lambda>p. if p = ''dump'' then Content [1, 2] else if p = ''locked'' then Unreadable else Absent"
      "\<lambda>bs. ([], Some ''unexpected EOF'')" "[1, 2]" "''unexpected EOF''"]
    load_at_startup [of "''none''"
      "\<lambda>p. if p = ''dump'' then Content [1, 2] else if p = ''locked'' then Unreadable else Absent"
      "\<lambda>bs. ([], Some ''unexpected EOF'')" "[1, 2]" "''unexpected EOF''"]
  by simp

section \<open>Properties of the redirect variant\<close>



lemma register_handler_same:
  "register_handler now ra i nm a m ra =
     Some \<lparr>id' = i, name = nm, address = ''http://'' @ a, added = now\<rparr>"
  using lifetime_nonneg by (simp add: register_handler_def cleanup_def time_Since_def time_Sub_self)

lemma register_handler_other:
  "ra' \<noteq> ra \<Longrightarrow> register_handler now ra' i nm a m ra = cleanup now m ra"
  by (simp add: register_handler_def cleanup_def)




lemma hexEscapeNonASCII_append:
  "hexEscapeNonASCII (xs @ ys) = hexEscapeNonASCII xs @ hexEscapeNonASCII ys"
  by (induction xs) simp_all

lemma hexEscapeNonASCII_http:
  "hexEscapeNonASCII (''http://'' @ a) = ''http://'' @ hexEscapeNonASCII a"
  by simp







lemma store_after_no_register: "\<forall>r\<in>set rs. \<not> is_register r \<Longrightarrow> store_after rs m = m"
  by (induction rs m rule: store_after.induct) auto






section \<open>Expiry\<close>

lemma set_RegisterDevice_store_other:
  assumes "\<not> (ea' = ea \<and> ia' = ia)" and "has_key ea ia d"
  shows "(d \<in> set (RegisterDevice_store now ea' ia' nm p ds)) = (d \<in> set ds)"
proof -
  from assms have nk: "\<not> has_key ea' ia' d" by (auto simp: has_key_def)
  then have ne: "d \<noteq> entry now ea' ia' nm p" using has_key_entry [of ea' ia' now nm p] by auto
  show ?thesis
  proof (cases "\<exists>x\<in>set ds. has_key ea' ia' x")
    case True
    then obtain pre e post where ds: "ds = pre @ e # post" and e: "has_key ea' ia' e"
      and pre: "\<forall>x\<in>set pre. \<not> has_key ea' ia' x"
      by (rule first_hit)
    from e nk have "d \<noteq> e" by auto
    with ne show ?thesis unfolding ds RegisterDevice_store_hit [OF pre e] by auto
  next
    case False
    then have no: "\<forall>x\<in>set ds. \<not> has_key ea' ia' x" by simp
    from ne show ?thesis unfolding RegisterDevice_store_miss [OF no] by auto
  qed
qed

lemma firstEvent_loop_le: "firstEvent_loop fe ds \<le> fe"
proof (induction ds arbitrary: fe)
  case Nil
  then show ?case by simp
next
  case (Cons d ds)
  have "firstEvent_loop (if time_After fe (Added d) then Added d else fe) ds
      \<le> (if time_After fe (Added d) then Added d else fe)"
    by (rule Cons.IH)
  then show ?case by (auto simp: time_After_def split: if_splits)
qed

lemma firstEvent_loop_le_Added: "d \<in> set ds \<Longrightarrow> firstEvent_loop fe ds \<le> Added d"
proof (induction ds arbitrary: fe)
  case Nil
  then show ?case by simp
next
  case (Cons e ds)
  show ?case
  proof (cases "d = e")
    case True
    have "firstEvent_loop (if time_After fe (Added e) then Added e else fe) ds
        \<le> (if time_After fe (Added e) then Added e else fe)"
      by (rule firstEvent_loop_le)
    with True show ?thesis by (auto simp: time_After_def split: if_splits)
  next
    case False
    with Cons.prems have "d \<in> set ds" by simp
    then show ?thesis by (simp add: Cons.IH)
  qed
qed

lemma sweeper_turn_max:
  assumes "lt + Second \<le> maxDuration"
  shows "sweeper_turn lt c ds = (ds, c, max c (cleanup_wake c lt ds))"
proof -
  have "firstEvent_loop c ds \<le> c" by (rule firstEvent_loop_le)
  with assms show ?thesis
    by (simp add: sweeper_turn_def cleanup_sleep_def cleanup_wake_def time_Add_def time_Sub_def
        maxDuration_def minDuration_def Second_def max_def)
qed

lemma firstEvent_loop_cases:
  "firstEvent_loop fe ds = fe \<or> (\<exists>d\<in>set ds. firstEvent_loop fe ds = Added d)"
proof (induction ds arbitrary: fe)
  case Nil
  then show ?case by simp
next
  case (Cons e ds)
  from Cons.IH [of "if time_After fe (Added e) then Added e else fe"]
  show ?case by (auto split: if_splits)
qed

lemma survivor_bound:
  assumes "lt < maxDuration" and "d \<in> set (fst (cleanup_sweep t lt ds))"
  shows "t \<le> Added d + lt"
proof -
  from assms(2) have "\<not> time_Since t (Added d) > lt"
    by (simp add: cleanup_sweep_filter expired_def)
  with assms(1) show ?thesis
    using expired_by_time [of lt t "Added d"] by (cases "t - Added d > lt") simp_all
qed

lemma on_time_inv_turn:
  assumes "0 \<le> lt" and "lt + Second \<le> maxDuration"
  shows "on_time_inv lt (sweeper_turn lt t (fst (cleanup_sweep t lt ds)))"
proof -
  let ?ds = "fst (cleanup_sweep t lt ds)"
  from assms(2) have ltmax: "lt < maxDuration" using Second_pos by simp
  have fe: "firstEvent_loop t ?ds \<le> t" by (rule firstEvent_loop_le)
  have "max t (cleanup_wake t lt ?ds) \<le> Added d + lt + Second" if "d \<in> set ?ds" for d
  proof -
    from ltmax that have "t \<le> Added d + lt" by (rule survivor_bound)
    moreover from that have "firstEvent_loop t ?ds \<le> Added d" by (rule firstEvent_loop_le_Added)
    ultimately show ?thesis using Second_pos
      by (simp add: cleanup_wake_def time_Add_def)
  qed
  then have "list_all (\<lambda>d. max t (cleanup_wake t lt ?ds) \<le> Added d + lt + Second) ?ds"
    by (simp add: list_all_iff)
  moreover have "max t (cleanup_wake t lt ?ds) \<le> t + lt + Second"
    using fe assms(1) Second_pos by (simp add: cleanup_wake_def time_Add_def)
  ultimately show ?thesis
    unfolding sweeper_turn_max [OF assms(2)] by (simp add: on_time_inv_def)
qed

lemma on_time_inv_start:
  assumes "0 \<le> lt" and "lt + Second \<le> maxDuration"
  shows "on_time_inv lt (sweeper_turn lt c0 [])"
  using assms Second_pos
  unfolding sweeper_turn_max [OF assms(2)]
  by (simp add: on_time_inv_def cleanup_wake_def time_Add_def)

lemma set_RegisterDevice_store_subset:
  "d \<in> set (RegisterDevice_store now ea ia nm p ds) \<Longrightarrow> d \<in> set ds \<or> d = entry now ea ia nm p"
proof (cases "\<exists>x\<in>set ds. has_key ea ia x")
  case True
  assume d: "d \<in> set (RegisterDevice_store now ea ia nm p ds)"
  from True obtain pre e post where ds: "ds = pre @ e # post" and e: "has_key ea ia e"
    and pre: "\<forall>x\<in>set pre. \<not> has_key ea ia x"
    by (rule first_hit)
  from d show ?thesis unfolding ds RegisterDevice_store_hit [OF pre e] by auto
next
  case False
  assume d: "d \<in> set (RegisterDevice_store now ea ia nm p ds)"
  from False have no: "\<forall>x\<in>set ds. \<not> has_key ea ia x" by simp
  from d show ?thesis unfolding RegisterDevice_store_miss [OF no] by auto
qed

lemma on_time_inv_step:
  assumes "0 \<le> lt" and "lt + Second \<le> maxDuration"
    and "on_time_inv lt st" and "on_time_step lt e st = Some st'"
  shows "on_time_inv lt st'"
proof (cases e)
  case (EvRegister now ea ia nm p)
  obtain ds c wake where st: "st = (ds, c, wake)" by (cases st)
  from assms(4) have now: "c \<le> now" "now \<le> wake"
    and st': "st' = (RegisterDevice_store now ea ia nm p ds, c, wake)"
    unfolding st EvRegister by (auto split: if_splits)
  from assms(3) have inv: "c \<le> wake" "wake \<le> c + lt + Second"
    "\<forall>d\<in>set ds. wake \<le> Added d + lt + Second"
    unfolding st by (simp_all add: on_time_inv_def list_all_iff)
  have "wake \<le> Added d + lt + Second"
    if "d \<in> set (RegisterDevice_store now ea ia nm p ds)" for d
  proof -
    from that have "d \<in> set ds \<or> d = entry now ea ia nm p"
      by (rule set_RegisterDevice_store_subset)
    then show ?thesis
    proof
      assume "d \<in> set ds"
      with inv(3) show ?thesis by simp
    next
      assume "d = entry now ea ia nm p"
      with inv(2) now(1) show ?thesis by (simp add: Added_entry)
    qed
  qed
  with inv(1,2) show ?thesis unfolding st' by (simp add: on_time_inv_def list_all_iff)
next
  case EvSweep
  obtain ds c wake where st: "st = (ds, c, wake)" by (cases st)
  from assms(4) have "st' = sweeper_turn lt wake (fst (cleanup_sweep wake lt ds))"
    unfolding st EvSweep by simp
  then show ?thesis using on_time_inv_turn [OF assms(1,2)] by simp
qed

lemma on_time_inv_run:
  assumes "0 \<le> lt" and "lt + Second \<le> maxDuration"
  shows "on_time_inv lt st \<Longrightarrow> on_time_run lt es st = Some st' \<Longrightarrow> on_time_inv lt st'"
proof (induction es arbitrary: st)
  case Nil
  then show ?case by simp
next
  case (Cons e es)
  from Cons.prems(2) obtain st1 where 1: "on_time_step lt e st = Some st1"
    and 2: "on_time_run lt es st1 = Some st'"
    by (auto split: option.splits)
  from assms Cons.prems(1) 1 have "on_time_inv lt st1" by (rule on_time_inv_step)
  then show ?case using 2 by (rule Cons.IH)
qed

lemma on_time_run_append:
  "on_time_run lt (xs @ ys) st =
     (case on_time_run lt xs st of None \<Rightarrow> None | Some st1 \<Rightarrow> on_time_run lt ys st1)"
  by (induction xs arbitrary: st) (auto split: option.splits)

lemma on_time_step_sweep_progress:
  assumes "0 \<le> lt" and "lt + Second \<le> maxDuration"
    and "on_time_step lt EvSweep (ds, c, wake) = Some (ds', c', wake')"
  shows "ds' = fst (cleanup_sweep wake lt ds) \<and> c' = wake \<and> wake + Second \<le> wake'"
proof -
  let ?ds = "fst (cleanup_sweep wake lt ds)"
  from assms(2) have ltmax: "lt < maxDuration" using Second_pos by simp
  from assms(3) have eq: "(ds', c', wake') = (?ds, wake, max wake (cleanup_wake wake lt ?ds))"
    by (auto simp: sweeper_turn_max [OF assms(2)])
  have "wake \<le> firstEvent_loop wake ?ds + lt"
    using firstEvent_loop_cases [of wake ?ds]
  proof
    assume "firstEvent_loop wake ?ds = wake"
    with assms(1) show ?thesis by simp
  next
    assume "\<exists>d\<in>set ?ds. firstEvent_loop wake ?ds = Added d"
    then obtain d where d: "d \<in> set ?ds" and fe: "firstEvent_loop wake ?ds = Added d" by blast
    from ltmax d have "wake \<le> Added d + lt" by (rule survivor_bound)
    with fe show ?thesis by simp
  qed
  then have "wake + Second \<le> cleanup_wake wake lt ?ds"
    by (simp add: cleanup_wake_def time_Add_def)
  with eq show ?thesis by simp
qed

lemma on_time_run_mono:
  assumes "0 \<le> lt" and "lt + Second \<le> maxDuration"
  shows "on_time_inv lt (ds, c, wake) \<Longrightarrow> on_time_run lt es (ds, c, wake) = Some (ds', c', wake') \<Longrightarrow>
    c \<le> c'"
proof (induction es arbitrary: ds c wake)
  case Nil
  then show ?case by simp
next
  case (Cons e es)
  from Cons.prems(2) obtain st1 where 1: "on_time_step lt e (ds, c, wake) = Some st1"
    and 2: "on_time_run lt es st1 = Some (ds', c', wake')"
    by (auto split: option.splits)
  obtain ds1 c1 wake1 where st1: "st1 = (ds1, c1, wake1)" by (cases st1)
  from assms Cons.prems(1) 1 have inv1: "on_time_inv lt (ds1, c1, wake1)"
    unfolding st1 [symmetric] by (rule on_time_inv_step)
  from inv1 2 have le: "c1 \<le> c'" unfolding st1 by (rule Cons.IH)
  have "c \<le> c1"
  proof (cases e)
    case (EvRegister now ea ia nm p)
    with 1 show ?thesis unfolding st1 by (auto split: if_splits)
  next
    case EvSweep
    with 1 have "c1 = wake" unfolding st1 by (auto simp: sweeper_turn_def)
    with Cons.prems(1) show ?thesis by (simp add: on_time_inv_def)
  qed
  with le show ?case by simp
qed

lemma on_time_run_keeps:
  assumes "0 \<le> lt" and "lt + Second \<le> maxDuration" and "has_key ea ia d"
  shows "on_time_inv lt (ds, c, wake) \<Longrightarrow> d \<in> set ds \<Longrightarrow>
    \<forall>e\<in>set es. \<not> re_registers ea ia e \<Longrightarrow>
    on_time_run lt es (ds, c, wake) = Some (ds', c', wake') \<Longrightarrow> c' \<le> Added d + lt \<Longrightarrow>
    d \<in> set ds'"
proof (induction es arbitrary: ds c wake)
  case Nil
  then show ?case by simp
next
  case (Cons e es)
  from Cons.prems(4) obtain st1 where 1: "on_time_step lt e (ds, c, wake) = Some st1"
    and 2: "on_time_run lt es st1 = Some (ds', c', wake')"
    by (auto split: option.splits)
  obtain ds1 c1 wake1 where st1: "st1 = (ds1, c1, wake1)" by (cases st1)
  from assms(1,2) Cons.prems(1) 1 have inv1: "on_time_inv lt (ds1, c1, wake1)"
    unfolding st1 [symmetric] by (rule on_time_inv_step)
  from assms(1,2) inv1 2 have le: "c1 \<le> c'" unfolding st1 by (rule on_time_run_mono)
  from Cons.prems(3) have rest: "\<forall>e\<in>set es. \<not> re_registers ea ia e"
    and this_e: "\<not> re_registers ea ia e" by simp_all
  have "d \<in> set ds1"
  proof (cases e)
    case (EvRegister now ea' ia' nm p)
    with 1 have "ds1 = RegisterDevice_store now ea' ia' nm p ds"
      unfolding st1 by (auto split: if_splits)
    moreover from this_e EvRegister have "\<not> (ea' = ea \<and> ia' = ia)" by simp
    ultimately show ?thesis
      using assms(3) Cons.prems(2) by (simp add: set_RegisterDevice_store_other)
  next
    case EvSweep
    with 1 have ds1: "ds1 = fst (cleanup_sweep wake lt ds)" and "c1 = wake"
      unfolding st1 by (auto simp: sweeper_turn_def)
    with le Cons.prems(5) have "wake - Added d \<le> lt" by simp
    with assms(1) have "\<not> time_Since wake (Added d) > lt"
      using not_expired_by_time [of lt wake "Added d"] by (simp add: minDuration_def)
    with Cons.prems(2) show ?thesis
      unfolding ds1 by (simp add: cleanup_sweep_filter expired_def)
  qed
  with inv1 rest 2 Cons.prems(5) show ?case unfolding st1 by (intro Cons.IH)
qed


text \<open>
  Claim C6, as stated, fails in the redirect variant: there the sweep runs only inside
  a registration, and the lookup does not look at the age of the entry. An entry
  registered at the time 0 and never registered again is still in the map, and still
  the target of the redirect, two seconds after its lifetime has passed.
\<close>

theorem expiry_counterexample:
  "serve [ReqRegister 0 ''203.0.113.5:4000'' ''a'' ''printer'' ''10.0.0.9'',
          ReqLookup (0 + lifetime + 2 * Second) ''203.0.113.5:4000''] Map.empty =
     [Empty, Found ''http://10.0.0.9''] \<and>
   store_after [ReqRegister 0 ''203.0.113.5:4000'' ''a'' ''printer'' ''10.0.0.9'',
          ReqLookup (0 + lifetime + 2 * Second) ''203.0.113.5:4000''] Map.empty
     ''203.0.113.5:4000'' \<noteq> None"
  by (simp add: register_handler_same root_handler_def)

text \<open>
  Claim C6, amended: it holds of the listing variant with its sweeper on time, started
  on the empty store, for a lifetime \<open>lt\<close> that is not negative and leaves a second of
  room below the greatest \<^verbatim>\<open>Duration\<close>. A state \<open>(ds, c, wake)\<close> of a run is the store
  at every time from \<open>c\<close> to \<open>wake\<close>.
  \<^item> In every state of a run the next sweep is due at most \<open>lt + 1s\<close> after the
    \<^verbatim>\<open>Added\<close> of every entry: no entry is ever older than the lifetime and a second.
    So at \<open>t0 + lt + 2s\<close> every entry of the store was added after \<open>t0\<close>, and the entry
    registered at \<open>t0\<close> is absent.
  \<^item> An entry registered at \<open>t0\<close> and not registered again is in the store as long
    as the last sweep was not after \<open>t0 + lt\<close>, so it is present at \<open>t0 + lt - 1s\<close>.
  \<^item> Every sweep runs at the time at which it was due, and the next one is due at
    least a second later: the sweeper gets past every time.
  \<^item> Started on a store \<open>ds5\<close> restored from a dump, the bound on the age holds from
    the first sweep on.
  \<^item> In the redirect variant a registration from another remote address removes the
    entry when it is older than the lifetime and keeps it as it is otherwise, and
    requests that are not registrations leave the map as it is: the entry is there
    until the first registration handled after \<open>t0 + lifetime\<close>.
\<close>

theorem expiry_on_time:
  assumes "0 \<le> lt" and "lt + Second \<le> maxDuration"
  shows
  "(on_time_run lt es (sweeper_turn lt c0 []) = Some (ds, c, wake) \<longrightarrow>
      c \<le> wake \<and>
      (\<forall>d\<in>set ds. wake - Added d \<le> lt + Second) \<and>
      (t0 + lt + 2 * Second \<le> wake \<longrightarrow>
         (\<forall>d\<in>set ds. t0 < Added d) \<and> entry t0 ea ia nm p \<notin> set ds)) \<and>
   (on_time_run lt es1 (sweeper_turn lt c0 []) = Some st1 \<and>
      on_time_run lt (EvRegister t0 ea ia nm p # es2) st1 = Some (ds2, c2, wake2) \<and>
      (\<forall>e\<in>set es2. \<not> re_registers ea ia e) \<and> c2 \<le> t0 + lt \<longrightarrow>
      entry t0 ea ia nm p \<in> set ds2) \<and>
   (on_time_step lt EvSweep (ds3, c3, wake3) = Some (ds4, c4, wake4) \<longrightarrow>
      ds4 = fst (cleanup_sweep wake3 lt ds3) \<and> c4 = wake3 \<and> wake3 + Second \<le> wake4) \<and>
   (m ra = Some d' \<and> ra' \<noteq> ra \<longrightarrow>
      register_handler t ra' i' nm' a' m ra =
        (if t - added d' > lifetime then None else Some d')) \<and>
   ((\<forall>r\<in>set rs. \<not> is_register r) \<longrightarrow> store_after rs m = m) \<and>
   (on_time_run lt (es5 @ EvSweep # es6) (sweeper_turn lt c5 ds5) = Some (ds6, c6, wake6) \<longrightarrow>
      c6 \<le> wake6 \<and> (\<forall>d\<in>set ds6. wake6 - Added d \<le> lt + Second))"
proof -
  note start = on_time_inv_start [OF assms, of c0]
  have 1: "c \<le> wake \<and> (\<forall>d\<in>set ds. wake - Added d \<le> lt + Second) \<and>
      (t0 + lt + 2 * Second \<le> wake \<longrightarrow>
         (\<forall>d\<in>set ds. t0 < Added d) \<and> entry t0 ea ia nm p \<notin> set ds)"
    if run: "on_time_run lt es (sweeper_turn lt c0 []) = Some (ds, c, wake)"
  proof -
    from assms start run have "on_time_inv lt (ds, c, wake)" by (rule on_time_inv_run)
    then have cw: "c \<le> wake" and all: "\<forall>d\<in>set ds. wake \<le> Added d + lt + Second"
      by (simp_all add: on_time_inv_def list_all_iff)
    from all have age: "\<forall>d\<in>set ds. wake - Added d \<le> lt + Second" by auto
    have late: "(\<forall>d\<in>set ds. t0 < Added d) \<and> entry t0 ea ia nm p \<notin> set ds"
      if "t0 + lt + 2 * Second \<le> wake"
    proof -
      have *: "t0 < Added d" if "d \<in> set ds" for d
      proof -
        from all that have "wake \<le> Added d + lt + Second" by simp
        with \<open>t0 + lt + 2 * Second \<le> wake\<close> Second_pos show ?thesis by simp
      qed
      then have "entry t0 ea ia nm p \<notin> set ds" using Added_entry [of t0 ea ia nm p] by force
      with * show ?thesis by simp
    qed
    from cw age late show ?thesis by simp
  qed
  have 2: "entry t0 ea ia nm p \<in> set ds2"
    if run1: "on_time_run lt es1 (sweeper_turn lt c0 []) = Some st1"
      and run2: "on_time_run lt (EvRegister t0 ea ia nm p # es2) st1 = Some (ds2, c2, wake2)"
      and no: "\<forall>e\<in>set es2. \<not> re_registers ea ia e" and early: "c2 \<le> t0 + lt"
  proof -
    from assms start run1 have inv1: "on_time_inv lt st1" by (rule on_time_inv_run)
    from run2 obtain st where st: "on_time_step lt (EvRegister t0 ea ia nm p) st1 = Some st"
      and rest: "on_time_run lt es2 st = Some (ds2, c2, wake2)"
      by (auto split: option.splits)
    from assms inv1 st have inv: "on_time_inv lt st" by (rule on_time_inv_step)
    obtain ds1 c1 wake1 where st1: "st1 = (ds1, c1, wake1)" by (cases st1)
    from st have eq: "st = (RegisterDevice_store t0 ea ia nm p ds1, c1, wake1)"
      unfolding st1 by (auto split: if_splits)
    have "c2 \<le> Added (entry t0 ea ia nm p) + lt" using early by (simp add: Added_entry)
    with assms has_key_entry [of ea ia t0 nm p] inv [unfolded eq]
      entry_in_RegisterDevice_store [of t0 ea ia nm p ds1] no rest [unfolded eq]
    show ?thesis by (rule on_time_run_keeps)
  qed
  have 3: "ds4 = fst (cleanup_sweep wake3 lt ds3) \<and> c4 = wake3 \<and> wake3 + Second \<le> wake4"
    if "on_time_step lt EvSweep (ds3, c3, wake3) = Some (ds4, c4, wake4)"
    using assms that by (rule on_time_step_sweep_progress)
  have 4: "register_handler t ra' i' nm' a' m ra =
      (if t - added d' > lifetime then None else Some d')"
    if "m ra = Some d'" and "ra' \<noteq> ra"
    using that lifetime_in_range
    by (simp add: register_handler_other cleanup_def time_Since_gt_iff)
  have 5: "store_after rs m = m" if "\<forall>r\<in>set rs. \<not> is_register r"
    using that by (rule store_after_no_register)
  have 6: "c6 \<le> wake6 \<and> (\<forall>d\<in>set ds6. wake6 - Added d \<le> lt + Second)"
    if run: "on_time_run lt (es5 @ EvSweep # es6) (sweeper_turn lt c5 ds5) = Some (ds6, c6, wake6)"
  proof -
    from run obtain st where "on_time_run lt es5 (sweeper_turn lt c5 ds5) = Some st"
      and rest: "on_time_run lt (EvSweep # es6) st = Some (ds6, c6, wake6)"
      by (auto simp: on_time_run_append split: option.splits)
    obtain ds' c' wake' where st: "st = (ds', c', wake')" by (cases st)
    from rest have "on_time_run lt es6 (sweeper_turn lt wake' (fst (cleanup_sweep wake' lt ds'))) =
        Some (ds6, c6, wake6)"
      unfolding st by simp
    with assms on_time_inv_turn [OF assms, of wake' ds']
    have "on_time_inv lt (ds6, c6, wake6)" by (rule on_time_inv_run)
    then have "c6 \<le> wake6" and "\<forall>d\<in>set ds6. wake6 \<le> Added d + lt + Second"
      by (simp_all add: on_time_inv_def list_all_iff)
    then show ?thesis by auto
  qed
  from 1 2 3 4 5 6 show ?thesis by blast
qed

theorem expiry_on_time_witness:
  "0 \<le> lifetime \<and> lifetime + Second \<le> maxDuration \<and>
   on_time_run lifetime [EvRegister (2 * Second) ''203.0.113.5'' ''10.0.0.9'' ''printer'' 9100, EvSweep]
     (sweeper_turn lifetime 0 []) =
     Some ([entry (2 * Second) ''203.0.113.5'' ''10.0.0.9'' ''printer'' 9100],
           lifetime + Second, lifetime + 3 * Second) \<and>
   entry (2 * Second) ''203.0.113.5'' ''10.0.0.9'' ''printer'' 9100 \<in>
     set [entry (2 * Second) ''203.0.113.5'' ''10.0.0.9'' ''printer'' 9100] \<and>
   on_time_run lifetime
     [EvRegister (2 * Second) ''203.0.113.5'' ''10.0.0.9'' ''printer'' 9100, EvSweep, EvSweep]
     (sweeper_turn lifetime 0 []) =
     Some ([], lifetime + 3 * Second, 2 * lifetime + 4 * Second) \<and>
   entry (2 * Second) ''203.0.113.5'' ''10.0.0.9'' ''printer'' 9100 \<notin> set ([] :: Device list)"
proof -
  have h1: "0 \<le> lifetime" by (rule lifetime_nonneg)
  have h2: "lifetime + Second \<le> maxDuration"
    by (simp add: maxDuration_def lifetime_def Hour_def Second_def)
  have run0: "on_time_run lifetime [] (sweeper_turn lifetime 0 []) = Some (sweeper_turn lifetime 0 [])"
    by simp
  have run1: "on_time_run lifetime
      (EvRegister (2 * Second) ''203.0.113.5'' ''10.0.0.9'' ''printer'' 9100 # [EvSweep])
      (sweeper_turn lifetime 0 []) =
      Some ([entry (2 * Second) ''203.0.113.5'' ''10.0.0.9'' ''printer'' 9100],
            lifetime + Second, lifetime + 3 * Second)"
    by (simp add: sweeper_turn_def cleanup_sleep_def cleanup_wake_def time_Add_def time_Sub_def
        time_Since_def time_After_def cleanup_sweep_filter expired_def RegisterDevice_store_def
        findDevice_def entry_def lifetime_def Hour_def Second_def maxDuration_def minDuration_def)
  have run2: "on_time_run lifetime
      [EvRegister (2 * Second) ''203.0.113.5'' ''10.0.0.9'' ''printer'' 9100, EvSweep, EvSweep]
      (sweeper_turn lifetime 0 []) =
      Some ([], lifetime + 3 * Second, 2 * lifetime + 4 * Second)"
    by (simp add: sweeper_turn_def cleanup_sleep_def cleanup_wake_def time_Add_def time_Sub_def
        time_Since_def time_After_def cleanup_sweep_filter expired_def RegisterDevice_store_def
        findDevice_def entry_def lifetime_def Hour_def Second_def maxDuration_def minDuration_def)
  have early: "lifetime + Second \<le> 2 * Second + lifetime" using Second_pos by simp
  have late: "2 * Second + lifetime + 2 * Second \<le> 2 * lifetime + 4 * Second"
    using h1 by simp
  have present: "entry (2 * Second) ''203.0.113.5'' ''10.0.0.9'' ''printer'' 9100 \<in>
      set [entry (2 * Second) ''203.0.113.5'' ''10.0.0.9'' ''printer'' 9100]"
    using expiry_on_time [OF h1 h2, THEN conjunct2, THEN conjunct1,
        of "[]" 0 "sweeper_turn lifetime 0 []" "2 * Second" "''203.0.113.5''" "''10.0.0.9''"
          "''printer''" 9100 "[EvSweep]"
          "[entry (2 * Second) ''203.0.113.5'' ''10.0.0.9'' ''printer'' 9100]"
          "lifetime + Second" "lifetime + 3 * Second"]
      run0 run1 early
    by simp
  have absent: "entry (2 * Second) ''203.0.113.5'' ''10.0.0.9'' ''printer'' 9100 \<notin>
      set ([] :: Device list)"
    using expiry_on_time [OF h1 h2, THEN conjunct1,
        of "[EvRegister (2 * Second) ''203.0.113.5'' ''10.0.0.9'' ''printer'' 9100, EvSweep, EvSweep]"
          0 "[]" "lifetime + 3 * Second" "2 * lifetime + 4 * Second" "2 * Second"
          "''203.0.113.5''" "''10.0.0.9''" "''printer''" 9100]
      run2 late
    by simp
  from h1 h2 run1 run2 present absent show ?thesis by simp
qed


end
